theory Spec2Isabelle
  imports Main "HOL-Library.Word"
begin

unbundle bit_operations_syntax

section \<open>The UART queue of STM32/serial.c\<close>

text \<open>
  The file is compiled for the STM32 (32-bit ARM): \<open>unsigned\<close> and \<open>unsigned long\<close> are
  32-bit words whose arithmetic wraps, \<open>char\<close> and \<open>unsigned char\<close> are bytes and
  \<open>int\<close> is a 32-bit word read as two's complement.
\<close>

type_synonym uchar = "8 word"
type_synonym char_c = "8 word"
type_synonym unsigned = "32 word"
type_synonym ulong = "32 word"
type_synonym int_c = "32 word"

subsection \<open>Constants\<close>

definition UART_RXBUF_SIZE :: unsigned where
  "UART_RXBUF_SIZE = 16"

definition UART_TXBUF_SIZE :: unsigned where
  "UART_TXBUF_SIZE = 128"

definition F_CPU :: nat where
  "F_CPU = 24 * 1000 * 1000"

definition BAUD :: nat where
  "BAUD = 9600"

text \<open>
  The register bit masks and the interrupt number come from \<open>armduino.h\<close>, which is not
  part of the sources. They are parameters of every operation that uses them.
\<close>

record usart_consts =
  USART_RXNE :: "32 word"
  USART_TXE :: "32 word"
  USART_TXEIE :: "32 word"
  USART_UE :: "32 word"
  USART_TE :: "32 word"
  USART_RE :: "32 word"
  USART_RXNEIE :: "32 word"
  USART_Intr :: nat

subsection \<open>State\<close>

text \<open>The queue state structure for a single UART.\<close>

record uart_fifo_type =
  rxbuf :: "uchar list"
  txbuf :: "uchar list"
  rxhead :: unsigned
  rxtail :: unsigned
  txhead :: unsigned
  txtail :: unsigned

text \<open>
  The global variables of the file and the registers the code writes. A read of the
  status register or of the data register returns what the hardware put there, so both
  reads are inputs of the interrupt handler; the values the code writes to the registers
  are fields of the state. \<open>USART_DR_tx\<close> lists the bytes written to the data register,
  oldest first, and \<open>intr_enabled\<close> is the set of interrupt numbers enabled in the
  interrupt controller. Every operation runs to completion on the state it is given:
  the handler is not interleaved with the foreground operations.
\<close>

record machine =
  uart0 :: uart_fifo_type
  serial_txbytes :: ulong
  serial_rxbytes :: ulong
  USART_SR :: "32 word"
  USART_CR1 :: "32 word"
  USART_CR2 :: "32 word"
  USART_CR3 :: "32 word"
  USART_BRR :: "32 word"
  USART_DR_tx :: "uchar list"
  intr_enabled :: "nat set"

text \<open>
  An array index outside the array is undefined behaviour in C. The model makes it a
  fault, so that an operation that returns \<open>Inr\<close> has stayed inside both arrays.
\<close>

datatype fault = OutOfBounds

subsection \<open>The interrupt handler\<close>

text \<open>
  The body of \<open>if (status & USART_RXNE)\<close>: \<open>dr\<close> is the value read from the data
  register, truncated to an \<open>unsigned char\<close>.
\<close>

definition isr_rx :: "32 word \<Rightarrow> machine \<Rightarrow> fault + machine" where
  "isr_rx dr s =
     (let c = (ucast dr :: uchar);
          i = rxhead (uart0 s) + 1;
          i = (if i \<ge> UART_RXBUF_SIZE then 0 else i)
      in if i \<noteq> rxtail (uart0 s) then
           if unat (rxhead (uart0 s)) < length (rxbuf (uart0 s)) then
             Inr (s\<lparr>uart0 := (uart0 s)\<lparr>rxbuf := (rxbuf (uart0 s))[unat (rxhead (uart0 s)) := c],
                                       rxhead := i\<rparr>,
                    serial_rxbytes := serial_rxbytes s + 1\<rparr>)
           else Inl OutOfBounds
         else Inr (s\<lparr>serial_rxbytes := serial_rxbytes s + 1\<rparr>))"

text \<open>The body of \<open>if (status & USART_TXE)\<close>.\<close>

definition isr_tx :: "usart_consts \<Rightarrow> machine \<Rightarrow> fault + machine" where
  "isr_tx hw s =
     (let i = txtail (uart0 s)
      in if i \<noteq> txhead (uart0 s) then
           if unat i < length (txbuf (uart0 s)) then
             (let c = txbuf (uart0 s) ! unat i;
                  i = i + 1;
                  i = (if i \<ge> UART_TXBUF_SIZE then 0 else i)
              in Inr (s\<lparr>uart0 := (uart0 s)\<lparr>txtail := i\<rparr>,
                       USART_DR_tx := USART_DR_tx s @ [c],
                       serial_txbytes := serial_txbytes s + 1\<rparr>))
           else Inl OutOfBounds
         else Inr (s\<lparr>USART_CR1 := USART_CR1 s AND NOT (USART_TXEIE hw),
                    serial_txbytes := serial_txbytes s + 1\<rparr>))"

text \<open>
  \<open>ISR(USART2)\<close>: \<open>status\<close> is the value read from the status register, \<open>dr\<close> the
  value the data register holds (read only on the receive path).
\<close>

definition ISR_USART2 :: "usart_consts \<Rightarrow> 32 word \<Rightarrow> 32 word \<Rightarrow> machine \<Rightarrow> fault + machine" where
  "ISR_USART2 hw status dr s =
     (case (if status AND USART_RXNE hw \<noteq> 0 then isr_rx dr s else Inr s) of
        Inl e \<Rightarrow> Inl e
      | Inr s1 \<Rightarrow> if status AND USART_TXE hw \<noteq> 0 then isr_tx hw s1 else Inr s1)"

subsection \<open>The foreground operations\<close>

text \<open>
  \<open>uart_getch\<close> returns an \<open>int\<close>: the byte converted from \<open>unsigned char\<close>
  (zero-extended), or \<open>-1\<close>.
\<close>

definition uart_getch :: "machine \<Rightarrow> fault + (int_c \<times> machine)" where
  "uart_getch s =
     (let i = rxtail (uart0 s);
          j = rxhead (uart0 s)
      in if i \<noteq> j then
           if unat i < length (rxbuf (uart0 s)) then
             (let c = rxbuf (uart0 s) ! unat i;
                  i = i + 1;
                  i = (if i \<ge> UART_RXBUF_SIZE then 0 else i)
              in Inr (ucast c, s\<lparr>uart0 := (uart0 s)\<lparr>rxtail := i\<rparr>\<rparr>))
           else Inl OutOfBounds
         else Inr (- 1, s))"

text \<open>\<open>uart_putch\<close> returns a \<open>char\<close>: \<open>0\<close> on success, \<open>-1\<close> if the queue is full.\<close>

definition uart_putch :: "usart_consts \<Rightarrow> char_c \<Rightarrow> machine \<Rightarrow> fault + (char_c \<times> machine)" where
  "uart_putch hw c s =
     (let i = txhead (uart0 s) + 1;
          i = (if i \<ge> UART_TXBUF_SIZE then 0 else i);
          j = txtail (uart0 s)
      in if i = j then Inr (- 1, s)
         else if unat (txhead (uart0 s)) < length (txbuf (uart0 s)) then
           Inr (0, s\<lparr>uart0 := (uart0 s)\<lparr>txbuf := (txbuf (uart0 s))[unat (txhead (uart0 s)) := c],
                                        txhead := i\<rparr>,
                     USART_CR1 := USART_CR1 s OR USART_TXEIE hw\<rparr>)
         else Inl OutOfBounds)"

text \<open>
  Modelled from the spec: the macro \<open>INTR_SETENA\<close> of \<open>armduino.h\<close> is not part of
  the sources; setup "arms the receive-interrupt", so the macro adds the interrupt number
  to the set of enabled interrupts.
\<close>

definition INTR_SETENA :: "nat \<Rightarrow> machine \<Rightarrow> machine" where
  "INTR_SETENA n s = s\<lparr>intr_enabled := insert n (intr_enabled s)\<rparr>"

definition setup_uart :: "usart_consts \<Rightarrow> machine \<Rightarrow> machine" where
  "setup_uart hw s =
     (let s = s\<lparr>serial_rxbytes := 0\<rparr>;
          s = s\<lparr>serial_txbytes := 0\<rparr>;
          s = s\<lparr>uart0 := (uart0 s)\<lparr>txtail := 0, rxtail := 0, txhead := 0, rxhead := 0\<rparr>\<rparr>;
          s = s\<lparr>USART_BRR := of_nat (F_CPU div BAUD)\<rparr>;
          s = s\<lparr>USART_SR := 0\<rparr>;
          s = s\<lparr>USART_CR2 := 0\<rparr>;
          s = s\<lparr>USART_CR3 := 0\<rparr>;
          s = INTR_SETENA (USART_Intr hw) s
      in s\<lparr>USART_CR1 := USART_UE hw OR USART_TE hw OR USART_RE hw OR USART_RXNEIE hw\<rparr>)"

subsection \<open>Calls in sequence\<close>

text \<open>
  A run of calls, each on the state the previous one left; a fault ends the run.
  \<open>putch_seq\<close> and \<open>getch_seq\<close> collect the returned values, and each event of
  \<open>isr_seq\<close> is the pair of the status register and the data register the handler reads.
\<close>

fun putch_seq :: "usart_consts \<Rightarrow> char_c list \<Rightarrow> machine \<Rightarrow> fault + (char_c list \<times> machine)" where
  "putch_seq hw [] s = Inr ([], s)"
| "putch_seq hw (c # cs) s =
     (case uart_putch hw c s of
        Inl e \<Rightarrow> Inl e
      | Inr (r, s1) \<Rightarrow>
          (case putch_seq hw cs s1 of
             Inl e \<Rightarrow> Inl e
           | Inr (rs, s2) \<Rightarrow> Inr (r # rs, s2)))"

fun getch_seq :: "nat \<Rightarrow> machine \<Rightarrow> fault + (int_c list \<times> machine)" where
  "getch_seq 0 s = Inr ([], s)"
| "getch_seq (Suc n) s =
     (case uart_getch s of
        Inl e \<Rightarrow> Inl e
      | Inr (r, s1) \<Rightarrow>
          (case getch_seq n s1 of
             Inl e \<Rightarrow> Inl e
           | Inr (rs, s2) \<Rightarrow> Inr (r # rs, s2)))"

fun isr_seq :: "usart_consts \<Rightarrow> (32 word \<times> 32 word) list \<Rightarrow> machine \<Rightarrow> fault + machine" where
  "isr_seq hw [] s = Inr s"
| "isr_seq hw ((status, dr) # evs) s =
     (case ISR_USART2 hw status dr s of
        Inl e \<Rightarrow> Inl e
      | Inr s1 \<Rightarrow> isr_seq hw evs s1)"

subsection \<open>Invariant and abstraction\<close>

text \<open>
  The arrays have their declared sizes and every index is an offset into its array.
\<close>

definition uart_inv :: "machine \<Rightarrow> bool" where
  "uart_inv s \<longleftrightarrow>
     length (rxbuf (uart0 s)) = unat UART_RXBUF_SIZE \<and>
     length (txbuf (uart0 s)) = unat UART_TXBUF_SIZE \<and>
     rxhead (uart0 s) < UART_RXBUF_SIZE \<and> rxtail (uart0 s) < UART_RXBUF_SIZE \<and>
     txhead (uart0 s) < UART_TXBUF_SIZE \<and> txtail (uart0 s) < UART_TXBUF_SIZE"

text \<open>
  The queue a ring holds: \<open>ring_count n h t\<close> bytes, read from offset \<open>t\<close> onwards
  and wrapping at the end of the array.
\<close>

definition ring_count :: "nat \<Rightarrow> nat \<Rightarrow> nat \<Rightarrow> nat" where
  "ring_count n h t = (h + n - t) mod n"

definition ring_contents :: "'a list \<Rightarrow> nat \<Rightarrow> nat \<Rightarrow> 'a list" where
  "ring_contents buf t k = map (\<lambda>j. buf ! ((t + j) mod length buf)) [0..<k]"

definition tx_queue :: "machine \<Rightarrow> uchar list" where
  "tx_queue s =
     ring_contents (txbuf (uart0 s)) (unat (txtail (uart0 s)))
       (ring_count (unat UART_TXBUF_SIZE) (unat (txhead (uart0 s))) (unat (txtail (uart0 s))))"

definition rx_queue :: "machine \<Rightarrow> uchar list" where
  "rx_queue s =
     ring_contents (rxbuf (uart0 s)) (unat (rxtail (uart0 s)))
       (ring_count (unat UART_RXBUF_SIZE) (unat (rxhead (uart0 s))) (unat (rxtail (uart0 s))))"

subsection \<open>Example values\<close>

text \<open>
  The masks of the STM32F100 reference manual (RM0041) for the status register and the
  control register 1, and the position of USART2 in the vector table.
\<close>

definition stm32_consts :: usart_consts where
  "stm32_consts =
     \<lparr>USART_RXNE = 0x20, USART_TXE = 0x80, USART_TXEIE = 0x80, USART_UE = 0x2000,
      USART_TE = 0x08, USART_RE = 0x04, USART_RXNEIE = 0x20, USART_Intr = 38\<rparr>"

text \<open>The state after power-up (all of memory zero) and a call of \<open>setup_uart\<close>.\<close>

definition zero_machine :: machine where
  "zero_machine =
     \<lparr>uart0 = \<lparr>rxbuf = replicate 16 0, txbuf = replicate 128 0,
               rxhead = 0, rxtail = 0, txhead = 0, txtail = 0\<rparr>,
      serial_txbytes = 0, serial_rxbytes = 0, USART_SR = 0, USART_CR1 = 0, USART_CR2 = 0,
      USART_CR3 = 0, USART_BRR = 0, USART_DR_tx = [], intr_enabled = {}\<rparr>"

definition ready_machine :: machine where
  "ready_machine = setup_uart stm32_consts zero_machine"

text \<open>A state whose transmit buffer is full: 127 bytes queued from offset 0.\<close>

definition full_machine :: machine where
  "full_machine = ready_machine\<lparr>uart0 := (uart0 ready_machine)\<lparr>txhead := 127\<rparr>\<rparr>"

text \<open>
  A state with the byte \<open>0xFF\<close> in the receive buffer, a state whose receive buffer is
  full, the state after \<open>uart_putch\<close> of one byte, and that state after the handler has
  sent the byte.
\<close>

definition ff_machine :: machine where
  "ff_machine =
     ready_machine\<lparr>uart0 := (uart0 ready_machine)\<lparr>rxbuf := (rxbuf (uart0 ready_machine))[0 := 0xFF],
                                                  rxhead := 1\<rparr>\<rparr>"

definition rx_full_machine :: machine where
  "rx_full_machine = ready_machine\<lparr>uart0 := (uart0 ready_machine)\<lparr>rxhead := 15\<rparr>\<rparr>"

definition one_byte_machine :: machine where
  "one_byte_machine =
     ready_machine\<lparr>uart0 := (uart0 ready_machine)\<lparr>txbuf := (txbuf (uart0 ready_machine))[0 := 0x41],
                                                  txhead := 1\<rparr>,
                    USART_CR1 := USART_CR1 ready_machine OR 0x80\<rparr>"

definition drained_machine :: machine where
  "drained_machine =
     one_byte_machine\<lparr>uart0 := (uart0 one_byte_machine)\<lparr>txtail := 1\<rparr>,
                       USART_DR_tx := [0x41], serial_txbytes := 1\<rparr>"

section \<open>Auxiliary lemmas\<close>

subsection \<open>Index arithmetic\<close>

lemma unat_RXBUF: "unat UART_RXBUF_SIZE = 16"
  by (simp add: UART_RXBUF_SIZE_def)

lemma unat_TXBUF: "unat UART_TXBUF_SIZE = 128"
  by (simp add: UART_TXBUF_SIZE_def)

lemma wrap_unat:
  fixes h n :: "32 word"
  assumes "h < n"
  shows "unat (if n \<le> h + 1 then 0 else h + 1) = Suc (unat h) mod unat n"
proof -
  from assms have lt: "unat h < unat n"
    by (simp add: word_less_nat_alt)
  have "unat n < 2 ^ 32"
    using unsigned_less [of n] by simp
  with lt have "unat h + 1 < 2 ^ 32"
    by simp
  then have u: "unat (h + 1) = unat h + 1"
    by (simp add: unat_word_ariths)
  show ?thesis
  proof (cases "n \<le> h + 1")
    case True
    then have "unat n \<le> unat h + 1"
      using u by (simp add: word_le_nat_alt)
    with lt have "unat h + 1 = unat n"
      by simp
    with True show ?thesis
      by simp
  next
    case False
    then have "unat h + 1 < unat n"
      using u by (simp add: word_le_nat_alt)
    with False u show ?thesis
      by simp
  qed
qed

lemma wrap_less:
  fixes h n :: "32 word"
  shows "0 < n \<Longrightarrow> (if n \<le> h + 1 then 0 else h + 1) < n"
  by (simp add: not_le)

lemma wrap_eq_iff:
  fixes h n t :: "32 word"
  assumes "h < n"
  shows "(if n \<le> h + 1 then 0 else h + 1) = t \<longleftrightarrow> Suc (unat h) mod unat n = unat t"
proof -
  have "(if n \<le> h + 1 then 0 else h + 1) = t \<longleftrightarrow> unat (if n \<le> h + 1 then 0 else h + 1) = unat t"
    by (rule word_unat_eq_iff)
  then show ?thesis
    by (simp only: wrap_unat [OF assms])
qed

subsection \<open>Rings\<close>


lemma ring_count_alt:
  "h < n \<Longrightarrow> t < n \<Longrightarrow> ring_count n h t = (if t \<le> h then h - t else h + n - t)"
  unfolding ring_count_def
  by (simp add: mod_if)

lemma succ_mod_alt: "h < n \<Longrightarrow> Suc h mod n = (if Suc h = n then 0 else Suc h)"
  by (simp add: mod_if)

lemma ring_count_less: "0 < n \<Longrightarrow> ring_count n h t < n"
  by (simp add: ring_count_def)

lemma ring_count_empty: "h < n \<Longrightarrow> t < n \<Longrightarrow> ring_count n h t = 0 \<longleftrightarrow> h = t"
  by (simp add: ring_count_alt)

lemma ring_count_full:
  "h < n \<Longrightarrow> t < n \<Longrightarrow> Suc h mod n = t \<longleftrightarrow> ring_count n h t = n - 1"
  by (simp add: ring_count_alt succ_mod_alt) arith

lemma ring_count_enq:
  "h < n \<Longrightarrow> t < n \<Longrightarrow> Suc h mod n \<noteq> t \<Longrightarrow>
   ring_count n (Suc h mod n) t = Suc (ring_count n h t)"
  by (simp add: ring_count_alt succ_mod_alt split: if_splits) arith

lemma ring_count_deq:
  "h < n \<Longrightarrow> t < n \<Longrightarrow> h \<noteq> t \<Longrightarrow>
   ring_count n h (Suc t mod n) = ring_count n h t - 1"
  by (simp add: ring_count_alt succ_mod_alt split: if_splits)

lemma ring_count_head:
  "h < n \<Longrightarrow> t < n \<Longrightarrow> (t + ring_count n h t) mod n = h"
  by (simp add: ring_count_alt mod_if)

lemma ring_contents_length [simp]: "length (ring_contents buf t k) = k"
  by (simp add: ring_contents_def)

lemma ring_contents_0 [simp]: "ring_contents buf t 0 = []"
  by (simp add: ring_contents_def)

lemma ring_contents_snoc:
  "ring_contents buf t (Suc k) = ring_contents buf t k @ [buf ! ((t + k) mod length buf)]"
  by (simp add: ring_contents_def)

lemma ring_contents_Cons:
  "ring_contents buf t (Suc k) = buf ! (t mod length buf) # ring_contents buf (Suc t mod length buf) k"
proof -
  have "[0..<Suc k] = 0 # map Suc [0..<k]"
    by (simp add: upt_conv_Cons map_Suc_upt del: upt_Suc)
  moreover have "(Suc t mod length buf + j) mod length buf = (t + Suc j) mod length buf" for j
    by (simp add: mod_simps)
  ultimately show ?thesis
    by (simp add: ring_contents_def comp_def del: upt_Suc)
qed

lemma mod_offset_neq:
  fixes t :: nat
  assumes "j < k" "k < n"
  shows "(t + k) mod n \<noteq> (t + j) mod n"
proof
  assume "(t + k) mod n = (t + j) mod n"
  moreover have "t + j \<le> t + k"
    using assms by simp
  ultimately have "n dvd (t + k) - (t + j)"
    by (simp only: mod_eq_dvd_iff_nat)
  then have "n dvd k - j"
    by simp
  moreover have "0 < k - j" "k - j < n"
    using assms by simp_all
  ultimately show False
    using nat_dvd_not_less by blast
qed

lemma ring_contents_update:
  assumes "k < length buf"
  shows "ring_contents (buf[(t + k) mod length buf := c]) t k = ring_contents buf t k"
proof -
  have "buf[(t + k) mod length buf := c] ! ((t + j) mod length buf) = buf ! ((t + j) mod length buf)"
    if "j < k" for j
    using mod_offset_neq [OF that assms, of t] by simp
  then show ?thesis
    by (simp add: ring_contents_def)
qed

lemma ring_contents_enq:
  assumes "k < length buf"
  shows "ring_contents (buf[(t + k) mod length buf := c]) t (Suc k) = ring_contents buf t k @ [c]"
proof -
  from assms have "0 < length buf"
    by (cases buf) simp_all
  then have "(t + k) mod length buf < length buf"
    by (rule mod_less_divisor)
  with assms show ?thesis
    by (simp add: ring_contents_snoc ring_contents_update)
qed

subsection \<open>The operations under the invariant\<close>

text \<open>The operations on a state that satisfies the invariant, with the indices read as naturals.\<close>

lemma uart_inv_D:
  assumes "uart_inv s"
  shows "length (rxbuf (uart0 s)) = 16" "length (txbuf (uart0 s)) = 128"
    "unat (rxhead (uart0 s)) < 16" "unat (rxtail (uart0 s)) < 16"
    "unat (txhead (uart0 s)) < 128" "unat (txtail (uart0 s)) < 128"
  using assms
  by (simp_all add: uart_inv_def unat_RXBUF unat_TXBUF word_less_nat_alt)

lemma uart_putch_full:
  assumes "uart_inv s" "Suc (unat (txhead (uart0 s))) mod 128 = unat (txtail (uart0 s))"
  shows "uart_putch hw c s = Inr (- 1, s)"
proof -
  from assms(1) have "txhead (uart0 s) < UART_TXBUF_SIZE"
    by (simp add: uart_inv_def)
  from wrap_eq_iff [OF this, of "txtail (uart0 s)"] assms(2) show ?thesis
    by (simp add: uart_putch_def Let_def unat_TXBUF)
qed

lemma uart_putch_ok:
  assumes "uart_inv s" "Suc (unat (txhead (uart0 s))) mod 128 \<noteq> unat (txtail (uart0 s))"
  shows "\<exists>h'. unat h' = Suc (unat (txhead (uart0 s))) mod 128 \<and>
     uart_putch hw c s =
       Inr (0, s\<lparr>uart0 := (uart0 s)\<lparr>txbuf := (txbuf (uart0 s))[unat (txhead (uart0 s)) := c],
                                    txhead := h'\<rparr>,
                 USART_CR1 := USART_CR1 s OR USART_TXEIE hw\<rparr>)"
proof -
  from assms(1) have lt: "txhead (uart0 s) < UART_TXBUF_SIZE"
    by (simp add: uart_inv_def)
  from wrap_eq_iff [OF lt, of "txtail (uart0 s)"] assms(2)
  have "(if UART_TXBUF_SIZE \<le> txhead (uart0 s) + 1 then 0 else txhead (uart0 s) + 1) \<noteq> txtail (uart0 s)"
    by (simp add: unat_TXBUF)
  moreover have "unat (txhead (uart0 s)) < length (txbuf (uart0 s))"
    using uart_inv_D [OF assms(1)] by simp
  ultimately have "uart_putch hw c s =
       Inr (0, s\<lparr>uart0 := (uart0 s)\<lparr>txbuf := (txbuf (uart0 s))[unat (txhead (uart0 s)) := c],
                                    txhead := (if UART_TXBUF_SIZE \<le> txhead (uart0 s) + 1 then 0 else txhead (uart0 s) + 1)\<rparr>,
                 USART_CR1 := USART_CR1 s OR USART_TXEIE hw\<rparr>)"
    by (simp add: uart_putch_def Let_def)
  with wrap_unat [OF lt] show ?thesis
    by (simp only: unat_TXBUF) blast
qed

lemma tx_queue_length:
  "length (tx_queue s) = ring_count 128 (unat (txhead (uart0 s))) (unat (txtail (uart0 s)))"
  by (simp add: tx_queue_def unat_TXBUF)

lemma rx_queue_length:
  "length (rx_queue s) = ring_count 16 (unat (rxhead (uart0 s))) (unat (rxtail (uart0 s)))"
  by (simp add: rx_queue_def unat_RXBUF)

lemma uart_putch_full_queue:
  assumes "uart_inv s" "length (tx_queue s) = 127"
  shows "uart_putch hw c s = Inr (- 1, s)"
proof -
  note D = uart_inv_D [OF assms(1)]
  from assms(2) D(5,6) have "Suc (unat (txhead (uart0 s))) mod 128 = unat (txtail (uart0 s))"
    by (simp add: tx_queue_length ring_count_full)
  with assms(1) show ?thesis
    by (rule uart_putch_full)
qed

lemma uart_putch_ok_queue:
  assumes "uart_inv s" "length (tx_queue s) \<noteq> 127"
  shows "\<exists>s'. uart_putch hw c s = Inr (0, s') \<and> uart_inv s' \<and>
    tx_queue s' = tx_queue s @ [c] \<and> rx_queue s' = rx_queue s \<and>
    USART_DR_tx s' = USART_DR_tx s \<and> USART_CR1 s' = USART_CR1 s OR USART_TXEIE hw"
proof -
  note D = uart_inv_D [OF assms(1)]
  let ?h = "unat (txhead (uart0 s))" and ?t = "unat (txtail (uart0 s))"
  let ?k = "ring_count 128 ?h ?t"
  from assms(2) D(5,6) have nf: "Suc ?h mod 128 \<noteq> ?t"
    by (simp add: tx_queue_length ring_count_full)
  from uart_putch_ok [OF assms(1) nf, of hw c] obtain h' where
    h': "unat h' = Suc ?h mod 128" and
    eq: "uart_putch hw c s =
       Inr (0, s\<lparr>uart0 := (uart0 s)\<lparr>txbuf := (txbuf (uart0 s))[?h := c], txhead := h'\<rparr>,
                 USART_CR1 := USART_CR1 s OR USART_TXEIE hw\<rparr>)" (is "_ = Inr (0, ?s')")
    by blast
  have "unat h' < 128"
    by (simp add: h')
  then have inv': "uart_inv ?s'"
    using assms(1) by (simp add: uart_inv_def word_less_nat_alt unat_TXBUF)
  have k: "?k < length (txbuf (uart0 s))"
    using D(2) by (simp add: ring_count_less)
  have hd: "(?t + ?k) mod length (txbuf (uart0 s)) = ?h"
    using D(2,5,6) by (simp add: ring_count_head)
  have "ring_count 128 (Suc ?h mod 128) ?t = Suc ?k"
    using D(5,6) nf by (rule ring_count_enq)
  then have "tx_queue ?s' = ring_contents ((txbuf (uart0 s))[?h := c]) ?t (Suc ?k)"
    by (simp add: tx_queue_def unat_TXBUF h')
  also have "\<dots> = ring_contents (txbuf (uart0 s)) ?t ?k @ [c]"
    using ring_contents_enq [OF k, of ?t c] by (simp only: hd)
  finally have q: "tx_queue ?s' = tx_queue s @ [c]"
    by (simp add: tx_queue_def unat_TXBUF)
  have "rx_queue ?s' = rx_queue s"
    by (simp add: rx_queue_def)
  with eq inv' q show ?thesis
    by simp
qed

lemma isr_rx_full:
  assumes "uart_inv s" "Suc (unat (rxhead (uart0 s))) mod 16 = unat (rxtail (uart0 s))"
  shows "isr_rx dr s = Inr (s\<lparr>serial_rxbytes := serial_rxbytes s + 1\<rparr>)"
proof -
  from assms(1) have "rxhead (uart0 s) < UART_RXBUF_SIZE"
    by (simp add: uart_inv_def)
  from wrap_eq_iff [OF this, of "rxtail (uart0 s)"] assms(2) show ?thesis
    by (simp add: isr_rx_def Let_def unat_RXBUF)
qed

lemma isr_rx_ok:
  assumes "uart_inv s" "Suc (unat (rxhead (uart0 s))) mod 16 \<noteq> unat (rxtail (uart0 s))"
  shows "\<exists>h'. unat h' = Suc (unat (rxhead (uart0 s))) mod 16 \<and>
     isr_rx dr s =
       Inr (s\<lparr>uart0 := (uart0 s)\<lparr>rxbuf := (rxbuf (uart0 s))[unat (rxhead (uart0 s)) := ucast dr],
                                 rxhead := h'\<rparr>,
              serial_rxbytes := serial_rxbytes s + 1\<rparr>)"
proof -
  from assms(1) have lt: "rxhead (uart0 s) < UART_RXBUF_SIZE"
    by (simp add: uart_inv_def)
  from wrap_eq_iff [OF lt, of "rxtail (uart0 s)"] assms(2)
  have "(if UART_RXBUF_SIZE \<le> rxhead (uart0 s) + 1 then 0 else rxhead (uart0 s) + 1) \<noteq> rxtail (uart0 s)"
    by (simp add: unat_RXBUF)
  moreover have "unat (rxhead (uart0 s)) < length (rxbuf (uart0 s))"
    using uart_inv_D [OF assms(1)] by simp
  ultimately have "isr_rx dr s =
       Inr (s\<lparr>uart0 := (uart0 s)\<lparr>rxbuf := (rxbuf (uart0 s))[unat (rxhead (uart0 s)) := ucast dr],
                                 rxhead := (if UART_RXBUF_SIZE \<le> rxhead (uart0 s) + 1 then 0 else rxhead (uart0 s) + 1)\<rparr>,
              serial_rxbytes := serial_rxbytes s + 1\<rparr>)"
    by (simp add: isr_rx_def Let_def)
  with wrap_unat [OF lt] show ?thesis
    by (simp only: unat_RXBUF) blast
qed

lemma isr_rx_queue:
  assumes "uart_inv s"
  shows "\<exists>s'. isr_rx dr s = Inr s' \<and> uart_inv s' \<and>
    rx_queue s' = (if length (rx_queue s) = 15 then rx_queue s else rx_queue s @ [ucast dr]) \<and>
    tx_queue s' = tx_queue s \<and> USART_DR_tx s' = USART_DR_tx s \<and> USART_CR1 s' = USART_CR1 s \<and>
    serial_rxbytes s' = serial_rxbytes s + 1 \<and> serial_txbytes s' = serial_txbytes s"
proof (cases "length (rx_queue s) = 15")
  case True
  note D = uart_inv_D [OF assms(1)]
  from True D(3,4) have "Suc (unat (rxhead (uart0 s))) mod 16 = unat (rxtail (uart0 s))"
    by (simp add: rx_queue_length ring_count_full)
  with assms have "isr_rx dr s = Inr (s\<lparr>serial_rxbytes := serial_rxbytes s + 1\<rparr>)"
    by (rule isr_rx_full)
  moreover have "uart_inv (s\<lparr>serial_rxbytes := serial_rxbytes s + 1\<rparr>)"
    using assms by (simp add: uart_inv_def)
  ultimately show ?thesis
    using True by (simp add: rx_queue_def tx_queue_def)
next
  case False
  note D = uart_inv_D [OF assms(1)]
  let ?h = "unat (rxhead (uart0 s))" and ?t = "unat (rxtail (uart0 s))"
  let ?k = "ring_count 16 ?h ?t"
  from False D(3,4) have nf: "Suc ?h mod 16 \<noteq> ?t"
    by (simp add: rx_queue_length ring_count_full)
  from isr_rx_ok [OF assms(1) nf, of dr] obtain h' where
    h': "unat h' = Suc ?h mod 16" and
    eq: "isr_rx dr s =
       Inr (s\<lparr>uart0 := (uart0 s)\<lparr>rxbuf := (rxbuf (uart0 s))[?h := ucast dr], rxhead := h'\<rparr>,
              serial_rxbytes := serial_rxbytes s + 1\<rparr>)" (is "_ = Inr ?s'")
    by blast
  have "unat h' < 16"
    by (simp add: h')
  then have inv': "uart_inv ?s'"
    using assms(1) by (simp add: uart_inv_def word_less_nat_alt unat_RXBUF)
  have k: "?k < length (rxbuf (uart0 s))"
    using D(1) by (simp add: ring_count_less)
  have hd: "(?t + ?k) mod length (rxbuf (uart0 s)) = ?h"
    using D(1,3,4) by (simp add: ring_count_head)
  have "ring_count 16 (Suc ?h mod 16) ?t = Suc ?k"
    using D(3,4) nf by (rule ring_count_enq)
  then have "rx_queue ?s' = ring_contents ((rxbuf (uart0 s))[?h := ucast dr]) ?t (Suc ?k)"
    by (simp add: rx_queue_def unat_RXBUF h')
  also have "\<dots> = ring_contents (rxbuf (uart0 s)) ?t ?k @ [ucast dr]"
    using ring_contents_enq [OF k, of ?t "ucast dr"] by (simp only: hd)
  finally have q: "rx_queue ?s' = rx_queue s @ [ucast dr]"
    by (simp add: rx_queue_def unat_RXBUF)
  have "tx_queue ?s' = tx_queue s"
    by (simp add: tx_queue_def)
  with eq inv' q False show ?thesis
    by simp
qed

lemma ring_contents_deq:
  assumes "h < length buf" "t < length buf" "h \<noteq> t"
  shows "ring_contents buf t (ring_count (length buf) h t) =
    buf ! t # ring_contents buf (Suc t mod length buf) (ring_count (length buf) h (Suc t mod length buf))"
proof -
  from assms have "ring_count (length buf) h t \<noteq> 0"
    by (simp add: ring_count_empty)
  then obtain k where k: "ring_count (length buf) h t = Suc k"
    by (cases "ring_count (length buf) h t") simp_all
  moreover from assms have "ring_count (length buf) h (Suc t mod length buf) = ring_count (length buf) h t - 1"
    by (rule ring_count_deq)
  ultimately show ?thesis
    using assms(2) by (simp add: ring_contents_Cons)
qed

lemma uart_getch_empty:
  assumes "rxhead (uart0 s) = rxtail (uart0 s)"
  shows "uart_getch s = Inr (- 1, s)"
  using assms by (simp add: uart_getch_def)

lemma uart_getch_ok:
  assumes "uart_inv s" "rxhead (uart0 s) \<noteq> rxtail (uart0 s)"
  shows "\<exists>t'. unat t' = Suc (unat (rxtail (uart0 s))) mod 16 \<and>
     uart_getch s =
       Inr (ucast (rxbuf (uart0 s) ! unat (rxtail (uart0 s))), s\<lparr>uart0 := (uart0 s)\<lparr>rxtail := t'\<rparr>\<rparr>)"
proof -
  from assms(1) have lt: "rxtail (uart0 s) < UART_RXBUF_SIZE"
    by (simp add: uart_inv_def)
  have "unat (rxtail (uart0 s)) < length (rxbuf (uart0 s))"
    using uart_inv_D [OF assms(1)] by simp
  with assms(2) have "uart_getch s =
       Inr (ucast (rxbuf (uart0 s) ! unat (rxtail (uart0 s))),
            s\<lparr>uart0 := (uart0 s)\<lparr>rxtail := (if UART_RXBUF_SIZE \<le> rxtail (uart0 s) + 1 then 0 else rxtail (uart0 s) + 1)\<rparr>\<rparr>)"
    by (simp add: uart_getch_def Let_def)
  with wrap_unat [OF lt] show ?thesis
    by (simp only: unat_RXBUF) blast
qed

lemma uart_getch_queue:
  assumes "uart_inv s"
  shows "\<exists>s'. uart_getch s = Inr (case rx_queue s of [] \<Rightarrow> - 1 | x # xs \<Rightarrow> ucast x, s') \<and> uart_inv s' \<and>
    rx_queue s' = tl (rx_queue s) \<and> tx_queue s' = tx_queue s \<and>
    USART_DR_tx s' = USART_DR_tx s \<and> USART_CR1 s' = USART_CR1 s"
proof (cases "rxhead (uart0 s) = rxtail (uart0 s)")
  case True
  then have "rx_queue s = []"
    by (simp add: rx_queue_def ring_count_def)
  with True assms show ?thesis
    by (simp add: uart_getch_empty)
next
  case False
  note D = uart_inv_D [OF assms(1)]
  let ?h = "unat (rxhead (uart0 s))" and ?t = "unat (rxtail (uart0 s))"
  from False have ne: "?h \<noteq> ?t"
    by (simp add: word_unat_eq_iff)
  from uart_getch_ok [OF assms False] obtain t' where
    t': "unat t' = Suc ?t mod 16" and
    eq: "uart_getch s = Inr (ucast (rxbuf (uart0 s) ! ?t), s\<lparr>uart0 := (uart0 s)\<lparr>rxtail := t'\<rparr>\<rparr>)"
      (is "_ = Inr (_, ?s')")
    by blast
  have "unat t' < 16"
    by (simp add: t')
  then have inv': "uart_inv ?s'"
    using assms(1) by (simp add: uart_inv_def word_less_nat_alt unat_RXBUF)
  from ring_contents_deq [of ?h "rxbuf (uart0 s)" ?t] D(1,3,4) ne
  have q: "rx_queue s = rxbuf (uart0 s) ! ?t # rx_queue ?s'"
    by (simp add: rx_queue_def unat_RXBUF t')
  have "tx_queue ?s' = tx_queue s"
    by (simp add: tx_queue_def)
  with eq inv' q show ?thesis
    by simp
qed

lemma isr_tx_empty:
  assumes "txhead (uart0 s) = txtail (uart0 s)"
  shows "isr_tx hw s = Inr (s\<lparr>USART_CR1 := USART_CR1 s AND NOT (USART_TXEIE hw),
                            serial_txbytes := serial_txbytes s + 1\<rparr>)"
  using assms by (simp add: isr_tx_def)

lemma isr_tx_ok:
  assumes "uart_inv s" "txhead (uart0 s) \<noteq> txtail (uart0 s)"
  shows "\<exists>t'. unat t' = Suc (unat (txtail (uart0 s))) mod 128 \<and>
     isr_tx hw s =
       Inr (s\<lparr>uart0 := (uart0 s)\<lparr>txtail := t'\<rparr>,
              USART_DR_tx := USART_DR_tx s @ [txbuf (uart0 s) ! unat (txtail (uart0 s))],
              serial_txbytes := serial_txbytes s + 1\<rparr>)"
proof -
  from assms(1) have lt: "txtail (uart0 s) < UART_TXBUF_SIZE"
    by (simp add: uart_inv_def)
  have "unat (txtail (uart0 s)) < length (txbuf (uart0 s))"
    using uart_inv_D [OF assms(1)] by simp
  with assms(2) have "isr_tx hw s =
       Inr (s\<lparr>uart0 := (uart0 s)\<lparr>txtail := (if UART_TXBUF_SIZE \<le> txtail (uart0 s) + 1 then 0 else txtail (uart0 s) + 1)\<rparr>,
              USART_DR_tx := USART_DR_tx s @ [txbuf (uart0 s) ! unat (txtail (uart0 s))],
              serial_txbytes := serial_txbytes s + 1\<rparr>)"
    by (simp add: isr_tx_def Let_def)
  with wrap_unat [OF lt] show ?thesis
    by (simp only: unat_TXBUF) blast
qed

lemma isr_tx_queue:
  assumes "uart_inv s"
  shows "\<exists>s'. isr_tx hw s = Inr s' \<and> uart_inv s' \<and>
    tx_queue s' = tl (tx_queue s) \<and> rx_queue s' = rx_queue s \<and>
    USART_DR_tx s' = USART_DR_tx s @ take 1 (tx_queue s) \<and>
    USART_CR1 s' = (if tx_queue s = [] then USART_CR1 s AND NOT (USART_TXEIE hw) else USART_CR1 s) \<and>
    serial_txbytes s' = serial_txbytes s + 1 \<and> serial_rxbytes s' = serial_rxbytes s"
proof (cases "txhead (uart0 s) = txtail (uart0 s)")
  case True
  then have "tx_queue s = []"
    by (simp add: tx_queue_def ring_count_def)
  moreover have "uart_inv (s\<lparr>USART_CR1 := USART_CR1 s AND NOT (USART_TXEIE hw),
                            serial_txbytes := serial_txbytes s + 1\<rparr>)"
    using assms by (simp add: uart_inv_def)
  ultimately show ?thesis
    using True by (simp add: isr_tx_empty rx_queue_def tx_queue_def)
next
  case False
  note D = uart_inv_D [OF assms(1)]
  let ?h = "unat (txhead (uart0 s))" and ?t = "unat (txtail (uart0 s))"
  from False have ne: "?h \<noteq> ?t"
    by (simp add: word_unat_eq_iff)
  from isr_tx_ok [OF assms False, of hw] obtain t' where
    t': "unat t' = Suc ?t mod 128" and
    eq: "isr_tx hw s = Inr (s\<lparr>uart0 := (uart0 s)\<lparr>txtail := t'\<rparr>,
              USART_DR_tx := USART_DR_tx s @ [txbuf (uart0 s) ! ?t],
              serial_txbytes := serial_txbytes s + 1\<rparr>)"
      (is "_ = Inr ?s'")
    by blast
  have "unat t' < 128"
    by (simp add: t')
  then have inv': "uart_inv ?s'"
    using assms(1) by (simp add: uart_inv_def word_less_nat_alt unat_TXBUF)
  from ring_contents_deq [of ?h "txbuf (uart0 s)" ?t] D(2,5,6) ne
  have q: "tx_queue s = txbuf (uart0 s) ! ?t # tx_queue ?s'"
    by (simp add: tx_queue_def unat_TXBUF t')
  have "rx_queue ?s' = rx_queue s"
    by (simp add: rx_queue_def)
  with eq inv' q show ?thesis
    by simp
qed

lemma ISR_USART2_queue:
  assumes "uart_inv s"
  shows "\<exists>s'. ISR_USART2 hw status dr s = Inr s' \<and> uart_inv s' \<and>
    rx_queue s' = (if status AND USART_RXNE hw \<noteq> 0 \<and> length (rx_queue s) \<noteq> 15
                   then rx_queue s @ [ucast dr] else rx_queue s) \<and>
    tx_queue s' = (if status AND USART_TXE hw \<noteq> 0 then tl (tx_queue s) else tx_queue s) \<and>
    USART_DR_tx s' = USART_DR_tx s @ (if status AND USART_TXE hw \<noteq> 0 then take 1 (tx_queue s) else []) \<and>
    USART_CR1 s' = (if status AND USART_TXE hw \<noteq> 0 \<and> tx_queue s = []
                    then USART_CR1 s AND NOT (USART_TXEIE hw) else USART_CR1 s) \<and>
    serial_rxbytes s' = serial_rxbytes s + (if status AND USART_RXNE hw \<noteq> 0 then 1 else 0) \<and>
    serial_txbytes s' = serial_txbytes s + (if status AND USART_TXE hw \<noteq> 0 then 1 else 0)"
proof -
  obtain s1 where s1: "(if status AND USART_RXNE hw \<noteq> 0 then isr_rx dr s else Inr s) = Inr s1"
    and inv1: "uart_inv s1"
    and q1: "rx_queue s1 = (if status AND USART_RXNE hw \<noteq> 0 \<and> length (rx_queue s) \<noteq> 15
                   then rx_queue s @ [ucast dr] else rx_queue s)"
      "tx_queue s1 = tx_queue s" "USART_DR_tx s1 = USART_DR_tx s" "USART_CR1 s1 = USART_CR1 s"
      "serial_rxbytes s1 = serial_rxbytes s + (if status AND USART_RXNE hw \<noteq> 0 then 1 else 0)"
      "serial_txbytes s1 = serial_txbytes s"
  proof (cases "status AND USART_RXNE hw \<noteq> 0")
    case True
    from isr_rx_queue [OF assms, of dr] obtain s' where "isr_rx dr s = Inr s'" "uart_inv s'"
      "rx_queue s' = (if length (rx_queue s) = 15 then rx_queue s else rx_queue s @ [ucast dr])"
      "tx_queue s' = tx_queue s" "USART_DR_tx s' = USART_DR_tx s" "USART_CR1 s' = USART_CR1 s"
      "serial_rxbytes s' = serial_rxbytes s + 1" "serial_txbytes s' = serial_txbytes s"
      by blast
    with True show ?thesis
      by (intro that [of s']) simp_all
  next
    case False
    with assms show ?thesis
      by (intro that [of s]) simp_all
  qed
  show ?thesis
  proof (cases "status AND USART_TXE hw \<noteq> 0")
    case True
    from isr_tx_queue [OF inv1, of hw] obtain s' where "isr_tx hw s1 = Inr s'" "uart_inv s'"
      "tx_queue s' = tl (tx_queue s1)" "rx_queue s' = rx_queue s1"
      "USART_DR_tx s' = USART_DR_tx s1 @ take 1 (tx_queue s1)"
      "USART_CR1 s' = (if tx_queue s1 = [] then USART_CR1 s1 AND NOT (USART_TXEIE hw) else USART_CR1 s1)"
      "serial_txbytes s' = serial_txbytes s1 + 1" "serial_rxbytes s' = serial_rxbytes s1"
      by blast
    with True s1 q1 show ?thesis
      by (simp add: ISR_USART2_def)
  next
    case False
    with s1 inv1 q1 show ?thesis
      by (simp add: ISR_USART2_def)
  qed
qed

subsection \<open>Conversions of a byte\<close>

lemma uint_ucast_byte: "uint (ucast (c :: uchar) :: int_c) = uint c"
  by (rule uint_up_ucast) (simp add: is_up)

lemma uint_byte_le: "uint (c :: uchar) \<le> 255"
  using uint_lt2p [of c] by simp

lemma sint_ucast_byte: "sint (ucast (c :: uchar) :: int_c) = uint c"
proof -
  have "sint (ucast c :: int_c) = signed_take_bit 31 (uint (ucast c :: int_c))"
    by (simp add: sint_uint)
  also have "\<dots> = signed_take_bit 31 (uint c)"
    by (simp only: uint_ucast_byte)
  also have "\<dots> = uint c"
  proof (rule signed_take_bit_int_eq_self)
    show "- (2 ^ 31) \<le> uint c"
      by (rule order_trans [of _ 0]) simp_all
    show "uint c < 2 ^ 31"
      using uint_byte_le [of c] by simp
  qed
  finally show ?thesis .
qed

lemma ucast_byte_neq_m1: "(ucast (c :: uchar) :: int_c) \<noteq> - 1"
proof
  assume "(ucast c :: int_c) = - 1"
  then have "sint (ucast c :: int_c) = sint (- 1 :: int_c)"
    by simp
  then have "uint c = - 1"
    by (simp only: sint_ucast_byte sint_n1)
  with uint_nonnegative [of c] show False
    by simp
qed

subsection \<open>Runs of calls\<close>

lemma tx_queue_le:
  "length (tx_queue s) \<le> 127"
  using ring_count_less [of 128 "unat (txhead (uart0 s))" "unat (txtail (uart0 s))"]
  by (simp add: tx_queue_length)

lemma empty_tx_queue:
  "txhead (uart0 s) = txtail (uart0 s) \<Longrightarrow> tx_queue s = []"
  by (simp add: tx_queue_def ring_count_def)

lemma empty_rx_queue:
  "rxhead (uart0 s) = rxtail (uart0 s) \<Longrightarrow> rx_queue s = []"
  by (simp add: rx_queue_def ring_count_def)

lemma tx_queue_empty_iff:
  assumes "uart_inv s"
  shows "tx_queue s = [] \<longleftrightarrow> txhead (uart0 s) = txtail (uart0 s)"
proof -
  note D = uart_inv_D [OF assms]
  have "tx_queue s = [] \<longleftrightarrow> length (tx_queue s) = 0"
    by simp
  also have "\<dots> \<longleftrightarrow> unat (txhead (uart0 s)) = unat (txtail (uart0 s))"
    using D(5,6) by (simp only: tx_queue_length ring_count_empty)
  finally show ?thesis
    by (simp add: word_unat_eq_iff)
qed

lemma putch_seq_results:
  assumes "uart_inv s"
  shows "\<exists>s'. putch_seq hw cs s =
    Inr (replicate (min (length cs) (127 - length (tx_queue s))) 0 @
         replicate (length cs - (127 - length (tx_queue s))) (- 1), s')"
  using assms
proof (induction cs arbitrary: s)
  case Nil
  then show ?case
    by simp
next
  case (Cons c cs)
  show ?case
  proof (cases "length (tx_queue s) = 127")
    case True
    with Cons.prems have "uart_putch hw c s = Inr (- 1, s)"
      by (simp add: uart_putch_full_queue)
    moreover from Cons.IH [OF Cons.prems] True
    obtain s' where "putch_seq hw cs s = Inr (replicate (length cs) (- 1), s')"
      by auto
    ultimately show ?thesis
      using True by simp
  next
    case False
    from uart_putch_ok_queue [OF Cons.prems False, of hw c] obtain s1 where
      s1: "uart_putch hw c s = Inr (0, s1)" "uart_inv s1" "tx_queue s1 = tx_queue s @ [c]"
      by blast
    from False tx_queue_le [of s] obtain m where m: "127 - length (tx_queue s) = Suc m"
      by (cases "127 - length (tx_queue s)") simp_all
    then have m': "127 - length (tx_queue s1) = m"
      by (simp add: s1(3))
    from Cons.IH [OF s1(2)] obtain s' where
      "putch_seq hw cs s1 = Inr (replicate (min (length cs) m) 0 @ replicate (length cs - m) (- 1), s')"
      unfolding m' by blast
    with s1(1) m show ?thesis
      by simp
  qed
qed

lemma putch_seq_queue:
  assumes "uart_inv s" "length (tx_queue s) + length cs \<le> 127"
  shows "\<exists>s'. putch_seq hw cs s = Inr (replicate (length cs) 0, s') \<and> uart_inv s' \<and>
    tx_queue s' = tx_queue s @ cs \<and> rx_queue s' = rx_queue s \<and> USART_DR_tx s' = USART_DR_tx s"
  using assms
proof (induction cs arbitrary: s)
  case Nil
  then show ?case
    by simp
next
  case (Cons c cs)
  from Cons.prems(2) have "length (tx_queue s) \<noteq> 127"
    by simp
  from uart_putch_ok_queue [OF Cons.prems(1) this, of hw c] obtain s1 where
    s1: "uart_putch hw c s = Inr (0, s1)" "uart_inv s1" "tx_queue s1 = tx_queue s @ [c]"
      "rx_queue s1 = rx_queue s" "USART_DR_tx s1 = USART_DR_tx s"
    by blast
  from Cons.prems(2) have "length (tx_queue s1) + length cs \<le> 127"
    by (simp add: s1(3))
  from Cons.IH [OF s1(2) this] obtain s' where
    "putch_seq hw cs s1 = Inr (replicate (length cs) 0, s')" "uart_inv s'"
    "tx_queue s' = tx_queue s1 @ cs" "rx_queue s' = rx_queue s1" "USART_DR_tx s' = USART_DR_tx s1"
    by blast
  with s1 show ?case
    by simp
qed

lemma isr_seq_tx:
  assumes "uart_inv s" "\<forall>(st, dr) \<in> set evs. st AND USART_TXE hw \<noteq> 0"
  shows "\<exists>s'. isr_seq hw evs s = Inr s' \<and> uart_inv s' \<and>
    tx_queue s' = drop (length evs) (tx_queue s) \<and>
    USART_DR_tx s' = USART_DR_tx s @ take (length evs) (tx_queue s) \<and>
    USART_CR1 s' = (if length (tx_queue s) < length evs
                    then USART_CR1 s AND NOT (USART_TXEIE hw) else USART_CR1 s)"
  using assms
proof (induction evs arbitrary: s)
  case Nil
  then show ?case
    by simp
next
  case (Cons ev evs)
  obtain st dr where ev: "ev = (st, dr)"
    by (cases ev)
  with Cons.prems(2) have st: "st AND USART_TXE hw \<noteq> 0" and
    rest: "\<forall>(st, dr) \<in> set evs. st AND USART_TXE hw \<noteq> 0"
    by simp_all
  from ISR_USART2_queue [OF Cons.prems(1), of hw st dr] st obtain s1 where
    s1: "ISR_USART2 hw st dr s = Inr s1" "uart_inv s1" "tx_queue s1 = tl (tx_queue s)"
      "USART_DR_tx s1 = USART_DR_tx s @ take 1 (tx_queue s)"
      "USART_CR1 s1 = (if tx_queue s = [] then USART_CR1 s AND NOT (USART_TXEIE hw) else USART_CR1 s)"
    by auto
  from Cons.IH [OF s1(2) rest] obtain s' where
    s': "isr_seq hw evs s1 = Inr s'" "uart_inv s'"
      "tx_queue s' = drop (length evs) (tx_queue s1)"
      "USART_DR_tx s' = USART_DR_tx s1 @ take (length evs) (tx_queue s1)"
      "USART_CR1 s' = (if length (tx_queue s1) < length evs
                    then USART_CR1 s1 AND NOT (USART_TXEIE hw) else USART_CR1 s1)"
    by blast
  show ?case
  proof (cases "tx_queue s")
    case Nil
    with ev s1 s' show ?thesis
      by simp
  next
    case (Cons x xs)
    with ev s1 s' show ?thesis
      by simp
  qed
qed

lemma isr_seq_rx:
  assumes "uart_inv s" "\<forall>(st, dr) \<in> set evs. st AND USART_RXNE hw \<noteq> 0"
    "length (rx_queue s) + length evs \<le> 15"
  shows "\<exists>s'. isr_seq hw evs s = Inr s' \<and> uart_inv s' \<and>
    rx_queue s' = rx_queue s @ map (\<lambda>(st, dr). ucast dr) evs"
  using assms
proof (induction evs arbitrary: s)
  case Nil
  then show ?case
    by simp
next
  case (Cons ev evs)
  obtain st dr where ev: "ev = (st, dr)"
    by (cases ev)
  with Cons.prems(2) have st: "st AND USART_RXNE hw \<noteq> 0" and
    rest: "\<forall>(st, dr) \<in> set evs. st AND USART_RXNE hw \<noteq> 0"
    by simp_all
  from Cons.prems(3) have nf: "length (rx_queue s) \<noteq> 15"
    by simp
  from ISR_USART2_queue [OF Cons.prems(1), of hw st dr] st nf obtain s1 where
    s1: "ISR_USART2 hw st dr s = Inr s1" "uart_inv s1" "rx_queue s1 = rx_queue s @ [ucast dr]"
    by auto
  from Cons.prems(3) have "length (rx_queue s1) + length evs \<le> 15"
    by (simp add: s1(3))
  from Cons.IH [OF s1(2) rest this] obtain s' where
    "isr_seq hw evs s1 = Inr s'" "uart_inv s'"
    "rx_queue s' = rx_queue s1 @ map (\<lambda>(st, dr). ucast dr) evs"
    by blast
  with ev s1 show ?case
    by simp
qed

lemma getch_seq_queue:
  assumes "uart_inv s" "n \<le> length (rx_queue s)"
  shows "\<exists>s'. getch_seq n s = Inr (map ucast (take n (rx_queue s)), s') \<and> uart_inv s' \<and>
    rx_queue s' = drop n (rx_queue s)"
  using assms
proof (induction n arbitrary: s)
  case 0
  then show ?case
    by simp
next
  case (Suc n)
  from Suc.prems(2) obtain x xs where q: "rx_queue s = x # xs"
    by (cases "rx_queue s") simp_all
  from uart_getch_queue [OF Suc.prems(1)] q obtain s1 where
    s1: "uart_getch s = Inr (ucast x, s1)" "uart_inv s1" "rx_queue s1 = xs"
    by auto
  from Suc.prems(2) q have "n \<le> length (rx_queue s1)"
    by (simp add: s1(3))
  from Suc.IH [OF s1(2) this] obtain s' where
    "getch_seq n s1 = Inr (map ucast (take n (rx_queue s1)), s')" "uart_inv s'"
    "rx_queue s' = drop n (rx_queue s1)"
    by blast
  with s1 q show ?case
    by simp
qed

subsection \<open>The example states\<close>

lemmas example_defs = ready_machine_def setup_uart_def zero_machine_def INTR_SETENA_def
  stm32_consts_def F_CPU_def BAUD_def

lemma uart_inv_ready: "uart_inv ready_machine"
  by (simp add: uart_inv_def example_defs UART_RXBUF_SIZE_def UART_TXBUF_SIZE_def)

subsection \<open>Frame and invariant of single operations\<close>

lemma uart_inv_setup: "uart_inv s \<Longrightarrow> uart_inv (setup_uart hw s)"
  by (simp add: uart_inv_def setup_uart_def INTR_SETENA_def UART_RXBUF_SIZE_def UART_TXBUF_SIZE_def)

lemma uart_putch_inv:
  assumes "uart_inv s"
  shows "\<exists>r s'. uart_putch hw c s = Inr (r, s') \<and> uart_inv s'"
proof (cases "length (tx_queue s) = 127")
  case True
  with assms show ?thesis
    by (simp add: uart_putch_full_queue)
next
  case False
  from uart_putch_ok_queue [OF assms False, of hw c] show ?thesis
    by blast
qed

lemma isr_tx_frame:
  assumes "uart_inv s"
  shows "\<exists>s'. isr_tx hw s = Inr s' \<and> rxbuf (uart0 s') = rxbuf (uart0 s) \<and>
    rxhead (uart0 s') = rxhead (uart0 s) \<and> rxtail (uart0 s') = rxtail (uart0 s) \<and>
    serial_rxbytes s' = serial_rxbytes s"
proof (cases "txhead (uart0 s) = txtail (uart0 s)")
  case True
  then show ?thesis
    by (simp add: isr_tx_empty)
next
  case False
  from isr_tx_ok [OF assms False, of hw] show ?thesis
    by auto
qed

section \<open>The claims\<close>

text \<open>
  C1: from a state that satisfies the invariant and whose transmit buffer is empty
  (\<open>txhead = txtail\<close>), a run of calls of \<open>uart_putch\<close> returns \<open>0\<close> for the first
  \<open>UART_TXBUF_SIZE - 1\<close> calls and \<open>-1\<close> for every call after them, so the call
  number \<open>UART_TXBUF_SIZE\<close> is the first to fail. The returned \<open>char\<close> is a byte:
  \<open>-1\<close> is the byte \<open>0xFF\<close>.
\<close>

theorem putch_capacity:
  assumes "uart_inv s" and "txhead (uart0 s) = txtail (uart0 s)"
  shows "\<exists>s'. putch_seq hw cs s =
    Inr (replicate (min (length cs) (unat UART_TXBUF_SIZE - 1)) 0 @
         replicate (length cs - (unat UART_TXBUF_SIZE - 1)) (- 1), s')"
  using putch_seq_results [OF assms(1), of hw cs] empty_tx_queue [OF assms(2)]
  by (simp add: unat_TXBUF)

theorem putch_capacity_witness:
  "uart_inv ready_machine \<and> txhead (uart0 ready_machine) = txtail (uart0 ready_machine) \<and>
   (\<exists>s'. putch_seq stm32_consts (replicate 128 0x41) ready_machine =
      Inr (replicate 127 0 @ [- 1], s'))"
proof -
  have e: "txhead (uart0 ready_machine) = txtail (uart0 ready_machine)"
    by (simp add: example_defs)
  have "min (length (replicate 128 (0x41 :: char_c))) (unat UART_TXBUF_SIZE - 1) = 127"
    "replicate (length (replicate 128 (0x41 :: char_c)) - (unat UART_TXBUF_SIZE - 1)) (- 1 :: char_c) = [- 1]"
    by (simp_all add: unat_TXBUF)
  with putch_capacity [OF uart_inv_ready e, of stm32_consts "replicate 128 0x41"]
  have "\<exists>s'. putch_seq stm32_consts (replicate 128 0x41) ready_machine =
      Inr (replicate 127 0 @ [- 1], s')"
    by simp
  with uart_inv_ready e show ?thesis
    by blast
qed

text \<open>
  C2: both rings are FIFO queues. Transmit: from an empty transmit buffer, \<open>uart_putch\<close>
  of at most \<open>UART_TXBUF_SIZE - 1\<close> bytes followed by as many runs of the handler with the
  transmit-ready flag set writes exactly these bytes, in order, to the data register.
  Receive: from an empty receive buffer, at most \<open>UART_RXBUF_SIZE - 1\<close> runs of the
  handler with the receive flag set followed by as many calls of \<open>uart_getch\<close> return
  the received bytes in order.
\<close>

theorem fifo_order:
  assumes "uart_inv s"
  shows "(txhead (uart0 s) = txtail (uart0 s) \<and> length cs \<le> unat UART_TXBUF_SIZE - 1 \<and>
      length tevs = length cs \<and> (\<forall>(st, dr) \<in> set tevs. st AND USART_TXE hw \<noteq> 0) \<longrightarrow>
      (\<exists>rs s1 s2. putch_seq hw cs s = Inr (rs, s1) \<and> isr_seq hw tevs s1 = Inr s2 \<and>
         USART_DR_tx s2 = USART_DR_tx s @ cs)) \<and>
    (rxhead (uart0 s) = rxtail (uart0 s) \<and> length revs \<le> unat UART_RXBUF_SIZE - 1 \<and>
      (\<forall>(st, dr) \<in> set revs. st AND USART_RXNE hw \<noteq> 0) \<longrightarrow>
      (\<exists>s1 rs s2. isr_seq hw revs s = Inr s1 \<and> getch_seq (length revs) s1 = Inr (rs, s2) \<and>
         rs = map (\<lambda>(st, dr). ucast (ucast dr :: uchar)) revs))"
proof (intro conjI impI; elim conjE)
  assume e: "txhead (uart0 s) = txtail (uart0 s)" and n: "length cs \<le> unat UART_TXBUF_SIZE - 1"
    and l: "length tevs = length cs" and t: "\<forall>(st, dr) \<in> set tevs. st AND USART_TXE hw \<noteq> 0"
  from e have q: "tx_queue s = []"
    by (rule empty_tx_queue)
  with n have "length (tx_queue s) + length cs \<le> 127"
    by (simp add: unat_TXBUF)
  from putch_seq_queue [OF assms this, of hw] q obtain s1 where
    s1: "putch_seq hw cs s = Inr (replicate (length cs) 0, s1)" "uart_inv s1"
      "tx_queue s1 = cs" "USART_DR_tx s1 = USART_DR_tx s"
    by auto
  from isr_seq_tx [OF s1(2) t] obtain s2 where
    "isr_seq hw tevs s1 = Inr s2" "USART_DR_tx s2 = USART_DR_tx s1 @ take (length tevs) (tx_queue s1)"
    by blast
  with s1 l show "\<exists>rs s1 s2. putch_seq hw cs s = Inr (rs, s1) \<and> isr_seq hw tevs s1 = Inr s2 \<and>
         USART_DR_tx s2 = USART_DR_tx s @ cs"
    by simp
next
  assume e: "rxhead (uart0 s) = rxtail (uart0 s)" and n: "length revs \<le> unat UART_RXBUF_SIZE - 1"
    and r: "\<forall>(st, dr) \<in> set revs. st AND USART_RXNE hw \<noteq> 0"
  from e have q: "rx_queue s = []"
    by (rule empty_rx_queue)
  with n have "length (rx_queue s) + length revs \<le> 15"
    by (simp add: unat_RXBUF)
  from isr_seq_rx [OF assms r this] q obtain s1 where
    s1: "isr_seq hw revs s = Inr s1" "uart_inv s1"
      "rx_queue s1 = map (\<lambda>(st, dr). ucast dr) revs"
    by auto
  then have "length revs \<le> length (rx_queue s1)"
    by simp
  from getch_seq_queue [OF s1(2) this] obtain s2 where
    "getch_seq (length revs) s1 = Inr (map ucast (take (length revs) (rx_queue s1)), s2)"
    by blast
  with s1 show "\<exists>s1 rs s2. isr_seq hw revs s = Inr s1 \<and> getch_seq (length revs) s1 = Inr (rs, s2) \<and>
         rs = map (\<lambda>(st, dr). ucast (ucast dr :: uchar)) revs"
    by (simp add: comp_def case_prod_unfold)
qed

theorem fifo_order_witness:
  "uart_inv ready_machine \<and>
   (\<exists>rs s1 s2. putch_seq stm32_consts [0x41, 0x42, 0x43] ready_machine = Inr (rs, s1) \<and>
      isr_seq stm32_consts [(0x80, 0), (0x80, 0), (0x80, 0)] s1 = Inr s2 \<and>
      USART_DR_tx s2 = [0x41, 0x42, 0x43]) \<and>
   (\<exists>s1 rs s2. isr_seq stm32_consts [(0x20, 0x31), (0x20, 0x32), (0x20, 0x1FF)] ready_machine = Inr s1 \<and>
      getch_seq 3 s1 = Inr (rs, s2) \<and> rs = [0x31, 0x32, 0xFF])"
proof -
  let ?cs = "[0x41, 0x42, 0x43] :: char_c list"
  let ?tevs = "[(0x80, 0), (0x80, 0), (0x80, 0)] :: (32 word \<times> 32 word) list"
  let ?revs = "[(0x20, 0x31), (0x20, 0x32), (0x20, 0x1FF)] :: (32 word \<times> 32 word) list"
  have d: "USART_DR_tx ready_machine = []"
    by (simp add: example_defs)
  have p1: "txhead (uart0 ready_machine) = txtail (uart0 ready_machine) \<and>
      length ?cs \<le> unat UART_TXBUF_SIZE - 1 \<and> length ?tevs = length ?cs \<and>
      (\<forall>(st, dr) \<in> set ?tevs. st AND USART_TXE stm32_consts \<noteq> 0)"
    by (simp add: example_defs unat_TXBUF)
  have p2: "rxhead (uart0 ready_machine) = rxtail (uart0 ready_machine) \<and>
      length ?revs \<le> unat UART_RXBUF_SIZE - 1 \<and>
      (\<forall>(st, dr) \<in> set ?revs. st AND USART_RXNE stm32_consts \<noteq> 0)"
    by (simp add: example_defs unat_RXBUF)
  have l: "length ?revs = 3"
    by simp
  have mp: "map (\<lambda>(st, dr). ucast (ucast dr :: uchar)) ?revs = ([0x31, 0x32, 0xFF] :: int_c list)"
    by simp
  from fifo_order [OF uart_inv_ready, of ?cs ?tevs stm32_consts ?revs] p1 p2
  have c1: "\<exists>rs s1 s2. putch_seq stm32_consts ?cs ready_machine = Inr (rs, s1) \<and>
      isr_seq stm32_consts ?tevs s1 = Inr s2 \<and> USART_DR_tx s2 = USART_DR_tx ready_machine @ ?cs"
    and c2: "\<exists>s1 rs s2. isr_seq stm32_consts ?revs ready_machine = Inr s1 \<and>
      getch_seq (length ?revs) s1 = Inr (rs, s2) \<and>
      rs = map (\<lambda>(st, dr). ucast (ucast dr :: uchar)) ?revs"
    by blast+
  from c1 have "\<exists>rs s1 s2. putch_seq stm32_consts ?cs ready_machine = Inr (rs, s1) \<and>
      isr_seq stm32_consts ?tevs s1 = Inr s2 \<and> USART_DR_tx s2 = ?cs"
    by (simp only: d append_Nil)
  moreover from c2 have "\<exists>s1 rs s2. isr_seq stm32_consts ?revs ready_machine = Inr s1 \<and>
      getch_seq 3 s1 = Inr (rs, s2) \<and> rs = [0x31, 0x32, 0xFF]"
    by (simp only: l mp)
  ultimately show ?thesis
    using uart_inv_ready by blast
qed

text \<open>
  C3: when the transmit buffer is full, that is \<open>(txhead + 1) mod UART_TXBUF_SIZE = txtail\<close>
  with \<open>txhead\<close> an offset into the buffer, \<open>uart_putch\<close> returns \<open>-1\<close> and the
  whole state is as before: the byte is not stored, no index moves and the control
  register keeps its value.
\<close>

theorem uart_putch_full_unchanged:
  assumes "txhead (uart0 s) < UART_TXBUF_SIZE"
    and "(unat (txhead (uart0 s)) + 1) mod unat UART_TXBUF_SIZE = unat (txtail (uart0 s))"
  shows "uart_putch hw c s = Inr (- 1, s)"
proof -
  from wrap_eq_iff [OF assms(1), of "txtail (uart0 s)"] assms(2) show ?thesis
    by (simp add: uart_putch_def Let_def)
qed

theorem uart_putch_full_unchanged_witness:
  "txhead (uart0 full_machine) < UART_TXBUF_SIZE \<and>
   (unat (txhead (uart0 full_machine)) + 1) mod unat UART_TXBUF_SIZE = unat (txtail (uart0 full_machine)) \<and>
   uart_putch stm32_consts 0x41 full_machine = Inr (- 1, full_machine)"
  using uart_putch_full_unchanged [of full_machine stm32_consts "0x41"]
  by (simp add: full_machine_def example_defs UART_TXBUF_SIZE_def)

text \<open>
  C4: on a state that satisfies the invariant, \<open>uart_getch\<close> returns \<open>-1\<close> if and
  only if \<open>rxhead = rxtail\<close>, and then leaves the state as it is; otherwise it returns
  the byte \<open>rxbuf[rxtail]\<close> and the only change of the state is that \<open>rxtail\<close> has
  advanced by one modulo \<open>UART_RXBUF_SIZE\<close>.
\<close>

theorem uart_getch_spec:
  assumes "uart_inv s"
  shows "\<exists>r s'. uart_getch s = Inr (r, s') \<and>
     (r = - 1 \<longleftrightarrow> rxhead (uart0 s) = rxtail (uart0 s)) \<and>
     (rxhead (uart0 s) = rxtail (uart0 s) \<longrightarrow> s' = s) \<and>
     (rxhead (uart0 s) \<noteq> rxtail (uart0 s) \<longrightarrow>
        r = ucast (rxbuf (uart0 s) ! unat (rxtail (uart0 s))) \<and>
        unat (rxtail (uart0 s')) = (unat (rxtail (uart0 s)) + 1) mod unat UART_RXBUF_SIZE \<and>
        s' = s\<lparr>uart0 := (uart0 s)\<lparr>rxtail := rxtail (uart0 s')\<rparr>\<rparr>)"
proof (cases "rxhead (uart0 s) = rxtail (uart0 s)")
  case True
  then show ?thesis
    by (simp add: uart_getch_empty)
next
  case False
  from uart_getch_ok [OF assms False] obtain t' where
    "unat t' = Suc (unat (rxtail (uart0 s))) mod 16"
    "uart_getch s = Inr (ucast (rxbuf (uart0 s) ! unat (rxtail (uart0 s))), s\<lparr>uart0 := (uart0 s)\<lparr>rxtail := t'\<rparr>\<rparr>)"
    by blast
  with False show ?thesis
    by (simp add: ucast_byte_neq_m1 unat_RXBUF)
qed

theorem uart_getch_spec_witness:
  "uart_inv ready_machine \<and> rxhead (uart0 ready_machine) = rxtail (uart0 ready_machine) \<and>
   uart_getch ready_machine = Inr (- 1, ready_machine) \<and>
   uart_inv ff_machine \<and> rxhead (uart0 ff_machine) \<noteq> rxtail (uart0 ff_machine) \<and>
   (\<exists>r s'. uart_getch ff_machine = Inr (r, s') \<and> r \<noteq> - 1 \<and> r = 255 \<and>
      unat (rxtail (uart0 s')) = 1 \<and> s' = ff_machine\<lparr>uart0 := (uart0 ff_machine)\<lparr>rxtail := rxtail (uart0 s')\<rparr>\<rparr>)"
proof -
  have e: "rxhead (uart0 ready_machine) = rxtail (uart0 ready_machine)"
    by (simp add: example_defs)
  have inv: "uart_inv ff_machine"
    by (simp add: uart_inv_def ff_machine_def example_defs UART_RXBUF_SIZE_def UART_TXBUF_SIZE_def)
  have ne: "rxhead (uart0 ff_machine) \<noteq> rxtail (uart0 ff_machine)"
    by (simp add: ff_machine_def example_defs)
  have b: "ucast (rxbuf (uart0 ff_machine) ! unat (rxtail (uart0 ff_machine))) = (255 :: int_c)"
    by (simp add: ff_machine_def example_defs)
  have t: "(unat (rxtail (uart0 ff_machine)) + 1) mod unat UART_RXBUF_SIZE = 1"
    by (simp add: ff_machine_def example_defs UART_RXBUF_SIZE_def)
  from uart_getch_spec [OF uart_inv_ready] e
  have "uart_getch ready_machine = Inr (- 1, ready_machine)"
    by auto
  moreover from uart_getch_spec [OF inv] ne
  have "\<exists>r s'. uart_getch ff_machine = Inr (r, s') \<and> r \<noteq> - 1 \<and> r = 255 \<and>
      unat (rxtail (uart0 s')) = 1 \<and> s' = ff_machine\<lparr>uart0 := (uart0 ff_machine)\<lparr>rxtail := rxtail (uart0 s')\<rparr>\<rparr>"
    unfolding b t by auto
  ultimately show ?thesis
    using uart_inv_ready e inv ne by blast
qed

text \<open>
  C5: when the handler runs with the receive flag set and the receive buffer is full,
  that is \<open>(rxhead + 1) mod UART_RXBUF_SIZE = rxtail\<close>, then \<open>rxbuf\<close>, \<open>rxhead\<close> and
  \<open>rxtail\<close> are as before (the byte is dropped) and \<open>serial_rxbytes\<close> has grown by one.
\<close>

theorem isr_rx_full_drops:
  assumes "uart_inv s" and "status AND USART_RXNE hw \<noteq> 0"
    and "(unat (rxhead (uart0 s)) + 1) mod unat UART_RXBUF_SIZE = unat (rxtail (uart0 s))"
  shows "\<exists>s'. ISR_USART2 hw status dr s = Inr s' \<and> rxbuf (uart0 s') = rxbuf (uart0 s) \<and>
    rxhead (uart0 s') = rxhead (uart0 s) \<and> rxtail (uart0 s') = rxtail (uart0 s) \<and>
    serial_rxbytes s' = serial_rxbytes s + 1"
proof -
  let ?s1 = "s\<lparr>serial_rxbytes := serial_rxbytes s + 1\<rparr>"
  from assms(1,3) have rx: "isr_rx dr s = Inr ?s1"
    by (simp add: isr_rx_full unat_RXBUF)
  have inv1: "uart_inv ?s1"
    using assms(1) by (simp add: uart_inv_def)
  show ?thesis
  proof (cases "status AND USART_TXE hw \<noteq> 0")
    case True
    from isr_tx_frame [OF inv1, of hw] obtain s' where "isr_tx hw ?s1 = Inr s'"
      "rxbuf (uart0 s') = rxbuf (uart0 s)" "rxhead (uart0 s') = rxhead (uart0 s)"
      "rxtail (uart0 s') = rxtail (uart0 s)" "serial_rxbytes s' = serial_rxbytes s + 1"
      by auto
    with True assms(2) rx show ?thesis
      by (simp add: ISR_USART2_def)
  next
    case False
    with assms(2) rx show ?thesis
      by (simp add: ISR_USART2_def)
  qed
qed

theorem isr_rx_full_drops_witness:
  "uart_inv rx_full_machine \<and> (0x20 :: 32 word) AND USART_RXNE stm32_consts \<noteq> 0 \<and>
   (unat (rxhead (uart0 rx_full_machine)) + 1) mod unat UART_RXBUF_SIZE = unat (rxtail (uart0 rx_full_machine)) \<and>
   (\<exists>s'. ISR_USART2 stm32_consts 0x20 0x34 rx_full_machine = Inr s' \<and>
      rxbuf (uart0 s') = rxbuf (uart0 rx_full_machine) \<and>
      rxhead (uart0 s') = rxhead (uart0 rx_full_machine) \<and>
      rxtail (uart0 s') = rxtail (uart0 rx_full_machine) \<and>
      serial_rxbytes s' = serial_rxbytes rx_full_machine + 1)"
proof -
  have inv: "uart_inv rx_full_machine"
    by (simp add: uart_inv_def rx_full_machine_def example_defs UART_RXBUF_SIZE_def UART_TXBUF_SIZE_def)
  have st: "(0x20 :: 32 word) AND USART_RXNE stm32_consts \<noteq> 0"
    by (simp add: stm32_consts_def)
  have full: "(unat (rxhead (uart0 rx_full_machine)) + 1) mod unat UART_RXBUF_SIZE = unat (rxtail (uart0 rx_full_machine))"
    by (simp add: rx_full_machine_def example_defs UART_RXBUF_SIZE_def)
  from isr_rx_full_drops [OF inv st full, of "0x34"] inv st full show ?thesis
    by blast
qed

text \<open>
  C6, as stated, fails: the run of the handler that sends the last byte leaves the
  transmit buffer empty and the interrupt enable bit \<open>USART_TXEIE\<close> still set. After
  \<open>uart_putch\<close> of one byte and one run of the handler the buffer is empty and the bit
  is set.
\<close>

theorem drain_leaves_txeie_set:
  "uart_putch stm32_consts 0x41 ready_machine = Inr (0, one_byte_machine) \<and>
   uart_inv one_byte_machine \<and>
   (0x80 :: 32 word) AND USART_TXE stm32_consts \<noteq> 0 \<and>
   txhead (uart0 one_byte_machine) \<noteq> txtail (uart0 one_byte_machine) \<and>
   isr_seq stm32_consts [(0x80, 0)] one_byte_machine = Inr drained_machine \<and>
   txhead (uart0 drained_machine) = txtail (uart0 drained_machine) \<and>
   USART_CR1 drained_machine AND USART_TXEIE stm32_consts \<noteq> 0"
  by (simp add: uart_putch_def isr_tx_def ISR_USART2_def Let_def uart_inv_def one_byte_machine_def
      drained_machine_def example_defs UART_RXBUF_SIZE_def UART_TXBUF_SIZE_def word_le_nat_alt)

text \<open>
  C6, amended: runs of the handler with the transmit-ready flag set leave control
  register 1 as it is as long as each of them finds a byte to send; once one of them has
  found the buffer empty (one run more than there were queued bytes), the buffer is empty
  and \<open>USART_TXEIE\<close> is clear. A call of \<open>uart_putch\<close> then succeeds and sets the bit
  again, changing nothing else in the register.
\<close>

theorem txeie_cleared_when_found_empty:
  assumes "uart_inv s" and "\<forall>(st, dr) \<in> set evs. st AND USART_TXE hw \<noteq> 0"
  shows "\<exists>s1. isr_seq hw evs s = Inr s1 \<and>
    (length evs \<le> length (tx_queue s) \<longrightarrow> USART_CR1 s1 = USART_CR1 s) \<and>
    (length (tx_queue s) < length evs \<longrightarrow>
       txhead (uart0 s1) = txtail (uart0 s1) \<and> USART_CR1 s1 AND USART_TXEIE hw = 0 \<and>
       (\<exists>s2. uart_putch hw c s1 = Inr (0, s2) \<and>
          USART_CR1 s2 = USART_CR1 s1 OR USART_TXEIE hw \<and>
          USART_CR1 s2 AND USART_TXEIE hw = USART_TXEIE hw))"
proof -
  from isr_seq_tx [OF assms] obtain s1 where
    s1: "isr_seq hw evs s = Inr s1" "uart_inv s1"
      "tx_queue s1 = drop (length evs) (tx_queue s)"
      "USART_CR1 s1 = (if length (tx_queue s) < length evs
                    then USART_CR1 s AND NOT (USART_TXEIE hw) else USART_CR1 s)"
    by blast
  have "txhead (uart0 s1) = txtail (uart0 s1) \<and> USART_CR1 s1 AND USART_TXEIE hw = 0 \<and>
       (\<exists>s2. uart_putch hw c s1 = Inr (0, s2) \<and>
          USART_CR1 s2 = USART_CR1 s1 OR USART_TXEIE hw \<and>
          USART_CR1 s2 AND USART_TXEIE hw = USART_TXEIE hw)"
    if lt: "length (tx_queue s) < length evs"
  proof -
    from lt s1(3) have q: "tx_queue s1 = []"
      by simp
    with s1(2) have e: "txhead (uart0 s1) = txtail (uart0 s1)"
      by (simp add: tx_queue_empty_iff)
    from lt s1(4) have "USART_CR1 s1 AND USART_TXEIE hw = USART_CR1 s AND (NOT (USART_TXEIE hw) AND USART_TXEIE hw)"
      by (simp add: and.assoc)
    then have z: "USART_CR1 s1 AND USART_TXEIE hw = 0"
      by simp
    from q have "length (tx_queue s1) \<noteq> 127"
      by simp
    from uart_putch_ok_queue [OF s1(2) this, of hw c] obtain s2 where
      s2: "uart_putch hw c s1 = Inr (0, s2)" "USART_CR1 s2 = USART_CR1 s1 OR USART_TXEIE hw"
      by blast
    have "(USART_CR1 s1 OR USART_TXEIE hw) AND USART_TXEIE hw = USART_TXEIE hw"
      by (simp add: bit_eq_iff bit_and_iff bit_or_iff)
    with e z s2 show ?thesis
      by simp
  qed
  with s1(1,4) show ?thesis
    by auto
qed

theorem txeie_cleared_when_found_empty_witness:
  "uart_inv one_byte_machine \<and> (0x80 :: 32 word) AND USART_TXE stm32_consts \<noteq> 0 \<and>
   length [(0x80 :: 32 word, 0 :: 32 word)] \<le> length (tx_queue one_byte_machine) \<and>
   length (tx_queue one_byte_machine) < length [(0x80 :: 32 word, 0 :: 32 word), (0x80, 0)] \<and>
   USART_TXEIE stm32_consts \<noteq> 0 \<and>
   (\<exists>s1. isr_seq stm32_consts [(0x80, 0)] one_byte_machine = Inr s1 \<and>
      USART_CR1 s1 = USART_CR1 one_byte_machine) \<and>
   (\<exists>s1. isr_seq stm32_consts [(0x80, 0), (0x80, 0)] one_byte_machine = Inr s1 \<and>
      txhead (uart0 s1) = txtail (uart0 s1) \<and> USART_CR1 s1 AND USART_TXEIE stm32_consts = 0 \<and>
      (\<exists>s2. uart_putch stm32_consts 0x45 s1 = Inr (0, s2) \<and>
         USART_CR1 s2 AND USART_TXEIE stm32_consts = USART_TXEIE stm32_consts))"
proof -
  let ?ev1 = "[(0x80, 0)] :: (32 word \<times> 32 word) list"
  let ?evs = "[(0x80, 0), (0x80, 0)] :: (32 word \<times> 32 word) list"
  have inv: "uart_inv one_byte_machine"
    by (simp add: uart_inv_def one_byte_machine_def example_defs UART_RXBUF_SIZE_def UART_TXBUF_SIZE_def)
  have ev: "\<forall>(st, dr) \<in> set ?evs. st AND USART_TXE stm32_consts \<noteq> 0"
    by (simp add: stm32_consts_def)
  then have ev1: "\<forall>(st, dr) \<in> set ?ev1. st AND USART_TXE stm32_consts \<noteq> 0"
    by simp
  have n: "length (tx_queue one_byte_machine) = 1"
    by (simp add: tx_queue_length ring_count_def one_byte_machine_def example_defs)
  then have le: "length ?ev1 \<le> length (tx_queue one_byte_machine)"
    and lt: "length (tx_queue one_byte_machine) < length ?evs"
    by simp_all
  have nz: "USART_TXEIE stm32_consts \<noteq> 0"
    by (simp add: stm32_consts_def)
  from txeie_cleared_when_found_empty [OF inv ev1, of "0x45"] le
  have a: "\<exists>s1. isr_seq stm32_consts ?ev1 one_byte_machine = Inr s1 \<and>
      USART_CR1 s1 = USART_CR1 one_byte_machine"
    by blast
  from txeie_cleared_when_found_empty [OF inv ev, of "0x45"] lt
  have b: "\<exists>s1. isr_seq stm32_consts ?evs one_byte_machine = Inr s1 \<and>
      txhead (uart0 s1) = txtail (uart0 s1) \<and> USART_CR1 s1 AND USART_TXEIE stm32_consts = 0 \<and>
      (\<exists>s2. uart_putch stm32_consts 0x45 s1 = Inr (0, s2) \<and>
         USART_CR1 s2 AND USART_TXEIE stm32_consts = USART_TXEIE stm32_consts)"
    by blast
  from ev have "(0x80 :: 32 word) AND USART_TXE stm32_consts \<noteq> 0"
    by simp
  with inv le lt nz a b show ?thesis
    by (intro conjI)
qed

text \<open>
  C7: every run of the handler with the transmit-ready flag set adds exactly one to
  \<open>serial_txbytes\<close> (modulo \<open>2 ^ 32\<close>), whether a byte was sent or the buffer was empty.
\<close>

theorem isr_tx_counts_every_invocation:
  assumes "uart_inv s" and "status AND USART_TXE hw \<noteq> 0"
  shows "\<exists>s'. ISR_USART2 hw status dr s = Inr s' \<and> serial_txbytes s' = serial_txbytes s + 1"
  using ISR_USART2_queue [OF assms(1), of hw status dr] assms(2) by auto

theorem isr_tx_counts_every_invocation_witness:
  "uart_inv ready_machine \<and> (0x80 :: 32 word) AND USART_TXE stm32_consts \<noteq> 0 \<and>
   (\<exists>s'. ISR_USART2 stm32_consts 0x80 0 ready_machine = Inr s' \<and>
      serial_txbytes s' = serial_txbytes ready_machine + 1)"
  using isr_tx_counts_every_invocation [of ready_machine "0x80" stm32_consts 0]
  by (simp add: uart_inv_ready) (simp add: stm32_consts_def)

text \<open>
  C8: \<open>setup_uart\<close> sets the four indices and the two counters to zero, from any state,
  and a second call changes nothing: neither the queue state nor the registers, each of
  which is assigned a constant.
\<close>

theorem setup_uart_reset_idempotent:
  "rxhead (uart0 (setup_uart hw s)) = 0 \<and> rxtail (uart0 (setup_uart hw s)) = 0 \<and>
   txhead (uart0 (setup_uart hw s)) = 0 \<and> txtail (uart0 (setup_uart hw s)) = 0 \<and>
   serial_txbytes (setup_uart hw s) = 0 \<and> serial_rxbytes (setup_uart hw s) = 0 \<and>
   setup_uart hw (setup_uart hw s) = setup_uart hw s"
  by (simp add: setup_uart_def INTR_SETENA_def)

text \<open>
  C9: every operation, started in a state that satisfies the invariant (the four indices
  are offsets into their arrays), returns without a fault and leaves a state that
  satisfies it: \<open>uart_putch\<close>, \<open>uart_getch\<close>, both paths of the handler, the handler
  as a whole, and \<open>setup_uart\<close>.
\<close>

theorem indices_stay_in_range:
  assumes "uart_inv s"
  shows "(\<exists>r s'. uart_putch hw c s = Inr (r, s') \<and> uart_inv s') \<and>
    (\<exists>r s'. uart_getch s = Inr (r, s') \<and> uart_inv s') \<and>
    (\<exists>s'. isr_rx dr s = Inr s' \<and> uart_inv s') \<and>
    (\<exists>s'. isr_tx hw s = Inr s' \<and> uart_inv s') \<and>
    (\<exists>s'. ISR_USART2 hw status dr s = Inr s' \<and> uart_inv s') \<and>
    uart_inv (setup_uart hw s)"
proof (intro conjI)
  show "\<exists>r s'. uart_putch hw c s = Inr (r, s') \<and> uart_inv s'"
    using assms by (rule uart_putch_inv)
  show "\<exists>r s'. uart_getch s = Inr (r, s') \<and> uart_inv s'"
    using uart_getch_queue [OF assms] by blast
  show "\<exists>s'. isr_rx dr s = Inr s' \<and> uart_inv s'"
    using isr_rx_queue [OF assms, of dr] by blast
  show "\<exists>s'. isr_tx hw s = Inr s' \<and> uart_inv s'"
    using isr_tx_queue [OF assms, of hw] by blast
  show "\<exists>s'. ISR_USART2 hw status dr s = Inr s' \<and> uart_inv s'"
    using ISR_USART2_queue [OF assms, of hw status dr] by blast
  show "uart_inv (setup_uart hw s)"
    using assms by (rule uart_inv_setup)
qed

theorem indices_stay_in_range_witness:
  "uart_inv full_machine \<and>
    (\<exists>r s'. uart_putch stm32_consts 0x41 full_machine = Inr (r, s') \<and> uart_inv s') \<and>
    (\<exists>r s'. uart_getch full_machine = Inr (r, s') \<and> uart_inv s') \<and>
    (\<exists>s'. isr_rx 0x31 full_machine = Inr s' \<and> uart_inv s') \<and>
    (\<exists>s'. isr_tx stm32_consts full_machine = Inr s' \<and> uart_inv s') \<and>
    (\<exists>s'. ISR_USART2 stm32_consts 0xA0 0x31 full_machine = Inr s' \<and> uart_inv s') \<and>
    uart_inv (setup_uart stm32_consts full_machine)"
proof -
  have inv: "uart_inv full_machine"
    by (simp add: uart_inv_def full_machine_def example_defs UART_RXBUF_SIZE_def UART_TXBUF_SIZE_def)
  from indices_stay_in_range [OF inv, of stm32_consts "0x41" "0x31" "0xA0"] inv show ?thesis
    by blast
qed

text \<open>
  C10: the value \<open>uart_getch\<close> returns, read as a signed \<open>int\<close>, is \<open>-1\<close> when the
  buffer is empty and otherwise the stored byte read as unsigned, between 0 and 255;
  a stored \<open>0xFF\<close> comes back as 255.
\<close>

theorem uart_getch_range:
  assumes "uart_inv s"
  shows "\<exists>r s'. uart_getch s = Inr (r, s') \<and>
     (if rxhead (uart0 s) = rxtail (uart0 s) then sint r = - 1
      else sint r = uint (rxbuf (uart0 s) ! unat (rxtail (uart0 s))) \<and> 0 \<le> sint r \<and> sint r \<le> 255)"
proof (cases "rxhead (uart0 s) = rxtail (uart0 s)")
  case True
  then show ?thesis
    by (simp add: uart_getch_empty)
next
  case False
  from uart_getch_ok [OF assms False] obtain t' where
    "uart_getch s = Inr (ucast (rxbuf (uart0 s) ! unat (rxtail (uart0 s))), s\<lparr>uart0 := (uart0 s)\<lparr>rxtail := t'\<rparr>\<rparr>)"
    by blast
  with False show ?thesis
    by (simp add: sint_ucast_byte uint_byte_le)
qed

theorem uart_getch_range_witness:
  "uart_inv ready_machine \<and> rxhead (uart0 ready_machine) = rxtail (uart0 ready_machine) \<and>
   (\<exists>r s'. uart_getch ready_machine = Inr (r, s') \<and> sint r = - 1) \<and>
   uart_inv ff_machine \<and> rxhead (uart0 ff_machine) \<noteq> rxtail (uart0 ff_machine) \<and>
   rxbuf (uart0 ff_machine) ! unat (rxtail (uart0 ff_machine)) = 0xFF \<and>
   (\<exists>r s'. uart_getch ff_machine = Inr (r, s') \<and> sint r = 255)"
proof -
  have e: "rxhead (uart0 ready_machine) = rxtail (uart0 ready_machine)"
    by (simp add: example_defs)
  have inv: "uart_inv ff_machine"
    by (simp add: uart_inv_def ff_machine_def example_defs UART_RXBUF_SIZE_def UART_TXBUF_SIZE_def)
  have ne: "rxhead (uart0 ff_machine) \<noteq> rxtail (uart0 ff_machine)"
    by (simp add: ff_machine_def example_defs)
  have b: "rxbuf (uart0 ff_machine) ! unat (rxtail (uart0 ff_machine)) = 0xFF"
    by (simp add: ff_machine_def example_defs)
  from uart_getch_range [OF uart_inv_ready] e
  have "\<exists>r s'. uart_getch ready_machine = Inr (r, s') \<and> sint r = - 1"
    by auto
  moreover from uart_getch_range [OF inv] ne
  have "\<exists>r s'. uart_getch ff_machine = Inr (r, s') \<and> sint r = 255"
    unfolding b by auto
  ultimately show ?thesis
    using uart_inv_ready e inv ne b by blast
qed

end
